theory Spec2Isabelle
  imports Main
begin

section \<open>Notebook helpers of \<^verbatim>\<open>06/gpu_dd4hep_tilecal.ipynb\<close>\<close>

text \<open>
  The two Python code cells with behaviour of their own are the download loop for the
  geometry and macro files, and the benchmark helper \<^verbatim>\<open>run_tile\<close>. Both talk to the
  outside world (file system, network, a child process, the clock); what the outside
  world answers is a parameter of the model, what the cell does with the answer is
  the definition.

  The other sources define no function: \<^verbatim>\<open>02/Session2_advanced.ipynb\<close> is markdown about
  CUDA Unified Memory with shell cells that run \<^verbatim>\<open>nvcc\<close> and \<^verbatim>\<open>nsys\<close>, and
  \<^verbatim>\<open>07/gpu-demo/CMakeLists.txt\<close> is a build description.
\<close>

subsection \<open>Exceptions\<close>

text \<open>
  The Python exceptions that can leave the two cells. \<open>Not_modelled\<close> marks inputs of
  a library function that the model does not cover (see \<open>py_int\<close>).
\<close>

datatype exn =
    CalledProcessError
  | OSError
  | UnicodeDecodeError
  | TypeError
  | ValueError
  | URLError
  | ContentTooShortError
  | Not_modelled

subsection \<open>The regular expression of \<^verbatim>\<open>run_tile\<close>\<close>

text \<open>
  \<^verbatim>\<open>re.search(r"Run summary: *(\d+) events", output)\<close>

  The pattern is a sequence of items: single characters, a greedy star over one
  character, and one capturing group around a greedy plus over \<^verbatim>\<open>\d\<close>. The matcher is
  the backtracking one of Python's \<^verbatim>\<open>re\<close>: a greedy repetition first takes the longest
  run and gives characters back one at a time while the rest of the pattern fails.
  Characters are \<^typ>\<open>char\<close>, that is code points below 256, where \<^verbatim>\<open>\d\<close> is exactly
  \<^verbatim>\<open>0\<close> to \<^verbatim>\<open>9\<close>; other Unicode decimal digits are outside the model.
\<close>

datatype atom = Chr char | Digit

definition is_digit :: "char \<Rightarrow> bool" where
  "is_digit c \<longleftrightarrow> 48 \<le> (of_char c :: nat) \<and> (of_char c :: nat) \<le> 57"

fun accepts :: "atom \<Rightarrow> char \<Rightarrow> bool" where
  "accepts (Chr a) c = (c = a)"
| "accepts Digit c = is_digit c"

datatype item = One atom | Star atom | Group_Plus atom

primrec first_some :: "('a \<Rightarrow> 'b option) \<Rightarrow> 'a list \<Rightarrow> 'b option" where
  "first_some f [] = None"
| "first_some f (x # xs) = (case f x of Some y \<Rightarrow> Some y | None \<Rightarrow> first_some f xs)"

definition run_len :: "atom \<Rightarrow> string \<Rightarrow> nat" where
  "run_len a s = length (takeWhile (accepts a) s)"

text \<open>
  \<open>match_here p s g\<close> matches the items \<open>p\<close> at the start of \<open>s\<close>; \<open>g\<close> is the text of
  group 1 so far (\<open>None\<close> while the group has not taken part). The result is the
  group of the first successful path in backtracking order.
\<close>

fun match_here :: "item list \<Rightarrow> string \<Rightarrow> string option \<Rightarrow> string option option" where
  "match_here [] s g = Some g"
| "match_here (One a # r) s g =
     (case s of [] \<Rightarrow> None
      | c # s' \<Rightarrow> if accepts a c then match_here r s' g else None)"
| "match_here (Star a # r) s g =
     first_some (\<lambda>k. match_here r (drop k s) g) (rev [0 ..< Suc (run_len a s)])"
| "match_here (Group_Plus a # r) s g =
     first_some (\<lambda>k. match_here r (drop k s) (Some (take k s))) (rev [1 ..< Suc (run_len a s)])"

text \<open>\<^verbatim>\<open>re.search\<close>: the first start position, from the left, at which the pattern matches.\<close>

definition re_search :: "item list \<Rightarrow> string \<Rightarrow> string option option" where
  "re_search p s = first_some (\<lambda>i. match_here p (drop i s) None) [0 ..< Suc (length s)]"

definition lit :: "string \<Rightarrow> item list" where
  "lit s = map (\<lambda>c. One (Chr c)) s"

definition summary_pattern :: "item list" where
  "summary_pattern =
     lit ''Run summary:'' @ [Star (Chr CHR '' ''), Group_Plus Digit] @ lit '' events''"

subsection \<open>\<^verbatim>\<open>int\<close> of a digit string\<close>

text \<open>
  \<^verbatim>\<open>int(m.group(1))\<close>. Python's \<^verbatim>\<open>int\<close> of a string of decimal digits is its decimal
  value, leading zeros allowed. Since Python 3.11 the conversion raises ValueError when
  the string has more digits than \<^verbatim>\<open>sys.get_int_max_str_digits()\<close> (4300 unless
  configured; 0 switches the limit off, and no other value below 640 can be set); the
  notebook asks for Python 3.11 or later. The limit is the parameter \<open>lim\<close>; an older
  interpreter is \<open>lim = 0\<close>. \<^verbatim>\<open>int\<close> also accepts a sign, surrounding blanks and
  underscores: group 1 holds digits only, so these inputs are not modelled.
\<close>

definition digit_val :: "char \<Rightarrow> nat" where
  "digit_val c = of_char c - 48"

definition decimal :: "string \<Rightarrow> nat" where
  "decimal s = foldl (\<lambda>n c. 10 * n + digit_val c) 0 s"

definition py_int :: "nat \<Rightarrow> string \<Rightarrow> exn + int" where
  "py_int lim s =
     (if s = [] \<or> \<not> list_all is_digit s then Inl Not_modelled
      else if 0 < lim \<and> lim < length s then Inl ValueError
      else Inr (int (decimal s)))"

subsection \<open>\<^verbatim>\<open>run_tile\<close>\<close>

text \<open>
  \<^verbatim>\<open>
  def run_tile(use_gpu: bool = True):
      env = os.environ.copy()
      env["CELER_DISABLE_DEVICE"] = "0" if use_gpu else "1"
      start = time.time()
      output = subprocess.check_output(["./tile_gpu"], text=True, env=env)
      dt = time.time() - start
      m = re.search(r"Run summary: *(\d+) events", output)
      nev = int(m.group(1)) if m else 1000
      return dt, nev
  \<close>
  A \<open>launch\<close> is what the helper hands to \<^verbatim>\<open>subprocess.check_output\<close>: the command line
  and the environment of the child. The child is the parameter \<open>check_output\<close>: it
  answers a launch with the captured standard output, or with the exception that
  \<^verbatim>\<open>check_output\<close> raises (non-zero exit status, missing executable, undecodable
  output). The two clock readings are the parameters \<open>start\<close> and \<open>stop\<close>. The result
  is the launch made, and the returned pair or the exception that leaves the function.
\<close>

record launch =
  argv :: "string list"
  environment :: "string \<rightharpoonup> string"

definition run_tile ::
  "nat \<Rightarrow> (string \<rightharpoonup> string) \<Rightarrow> (launch \<Rightarrow> exn + string) \<Rightarrow> 't::minus \<Rightarrow> 't \<Rightarrow> bool
     \<Rightarrow> launch \<times> (exn + 't \<times> int)" where
  "run_tile lim environ check_output start stop use_gpu =
     (let env = environ(''CELER_DISABLE_DEVICE'' \<mapsto> (if use_gpu then ''0'' else ''1''));
          child = \<lparr>argv = [''./tile_gpu''], environment = env\<rparr>
      in (child,
          case check_output child of
            Inl e \<Rightarrow> Inl e
          | Inr output \<Rightarrow>
              (let dt = stop - start;
                   m = re_search summary_pattern output
               in case m of
                    None \<Rightarrow> Inr (dt, 1000)
                  | Some g \<Rightarrow>
                      (case g of
                         None \<Rightarrow> Inl TypeError
                       | Some ds \<Rightarrow>
                           (case py_int lim ds of
                              Inl e \<Rightarrow> Inl e
                            | Inr nev \<Rightarrow> Inr (dt, nev))))))"

text \<open>
  What it means for the output to contain text matching the pattern, said without
  the matcher: at offset \<open>i\<close> the output reads \<^verbatim>\<open>Run summary:\<close>, any number of blanks, the
  non-empty digit string \<open>ds\<close>, and \<^verbatim>\<open> events\<close>.
\<close>

definition summary_at :: "string \<Rightarrow> nat \<Rightarrow> string \<Rightarrow> bool" where
  "summary_at output i ds \<longleftrightarrow>
     i \<le> length output \<and> ds \<noteq> [] \<and> list_all is_digit ds \<and>
     (\<exists>k post. drop i output =
        ''Run summary:'' @ replicate k CHR '' '' @ ds @ '' events'' @ post)"

subsection \<open>The download loop\<close>

text \<open>
  \<^verbatim>\<open>
  files = {
      "TileTB_2B1EB_nobeamline.gdml": "https://raw.githubusercontent.com/.../TileTB_2B1EB_nobeamline.gdml",
      "TBrun_elec.mac": "https://raw.githubusercontent.com/.../TBrun_elec.mac"
  }
  for fname, url in files.items():
      if not pathlib.Path(fname).exists():
          print(f"Downloading {fname} ...")
          urllib.request.urlretrieve(url, fname)
      else:
          print(f"{fname} already present")
  print("Geometry & macro ready.")
  \<close>
  (URLs shortened here; the message after \<^verbatim>\<open>Downloading\<close> ends in an ellipsis character.)
  The dictionary is an association list in insertion order, which is the order
  \<^verbatim>\<open>items()\<close> iterates in. The printed lines are kept as messages, not as text.
\<close>

definition files :: "(string \<times> string) list" where
  "files =
     [(''TileTB_2B1EB_nobeamline.gdml'',
       ''https://raw.githubusercontent.com/celeritas-project/atlas-tilecal-integration/main/TileTB_2B1EB_nobeamline.gdml''),
      (''TBrun_elec.mac'',
       ''https://raw.githubusercontent.com/celeritas-project/atlas-tilecal-integration/main/TBrun_elec.mac'')]"

text \<open>
  The state the cell acts on: the entries of the working directory with their content
  (\<open>cwd\<close>), the lines printed (\<open>stdout\<close>), and the calls of \<^verbatim>\<open>urlretrieve(url, filename)\<close>
  made so far (\<open>retrieved\<close>).
\<close>

datatype message = Downloading string | Already_present string | Ready

record 'c world =
  cwd :: "string \<rightharpoonup> 'c"
  stdout :: "message list"
  retrieved :: "(string \<times> string) list"

text \<open>
  \<^verbatim>\<open>urllib.request.urlretrieve\<close> is library code. Its outcome is the parameter \<open>net\<close>:
  either the whole response is written to the file and the call returns, or the call
  raises, and may leave a file with part of the response behind.
\<close>

datatype 'c response = Fetched 'c | Failed exn "'c option"

definition urlretrieve ::
  "(string \<Rightarrow> string \<Rightarrow> 'c response) \<Rightarrow> string \<Rightarrow> string \<Rightarrow> 'c world
     \<Rightarrow> (exn + unit) \<times> 'c world" where
  "urlretrieve net url filename w =
     (let w' = w\<lparr>retrieved := retrieved w @ [(url, filename)]\<rparr>
      in case net url filename of
           Fetched c \<Rightarrow> (Inr (), w'\<lparr>cwd := (cwd w')(filename \<mapsto> c)\<rparr>)
         | Failed e partial \<Rightarrow>
             (Inl e, case partial of
                       None \<Rightarrow> w'
                     | Some c \<Rightarrow> w'\<lparr>cwd := (cwd w')(filename \<mapsto> c)\<rparr>))"

definition exists :: "'c world \<Rightarrow> string \<Rightarrow> bool" where
  "exists w fname \<longleftrightarrow> cwd w fname \<noteq> None"

fun download_loop ::
  "(string \<Rightarrow> string \<Rightarrow> 'c response) \<Rightarrow> (string \<times> string) list \<Rightarrow> 'c world
     \<Rightarrow> (exn + unit) \<times> 'c world" where
  "download_loop net [] w = (Inr (), w)"
| "download_loop net ((fname, url) # rest) w =
     (if \<not> exists w fname then
        (case urlretrieve net url fname (w\<lparr>stdout := stdout w @ [Downloading fname]\<rparr>) of
           (Inl e, w') \<Rightarrow> (Inl e, w')
         | (Inr u, w') \<Rightarrow> download_loop net rest w')
      else download_loop net rest (w\<lparr>stdout := stdout w @ [Already_present fname]\<rparr>))"

definition download_cell ::
  "(string \<Rightarrow> string \<Rightarrow> 'c response) \<Rightarrow> (string \<times> string) list \<Rightarrow> 'c world
     \<Rightarrow> (exn + unit) \<times> 'c world" where
  "download_cell net table w =
     (case download_loop net table w of
        (Inl e, w') \<Rightarrow> (Inl e, w')
      | (Inr u, w') \<Rightarrow> (Inr (), w'\<lparr>stdout := stdout w' @ [Ready]\<rparr>))"

text \<open>
  The table entries whose file is absent from the working directory, as
  \<^verbatim>\<open>(url, filename)\<close> pairs in table order: the calls of \<^verbatim>\<open>urlretrieve\<close> a run of the loop
  is expected to make.
\<close>

definition missing :: "'c world \<Rightarrow> (string \<times> string) list \<Rightarrow> (string \<times> string) list" where
  "missing w table = map (\<lambda>(fname, url). (url, fname)) (filter (\<lambda>(fname, url). \<not> exists w fname) table)"

section \<open>The search for the run summary\<close>

subsection \<open>First success in a list of attempts\<close>

lemma first_some_None_iff: "first_some f xs = None \<longleftrightarrow> (\<forall>x \<in> set xs. f x = None)"
  by (induction xs) (auto split: option.splits)

lemma first_some_SomeD: "first_some f xs = Some y \<Longrightarrow> \<exists>x \<in> set xs. f x = Some y"
  by (induction xs) (auto split: option.splits)

lemma first_some_nth:
  "first_some f xs = Some y \<longleftrightarrow>
     (\<exists>i < length xs. f (xs ! i) = Some y \<and> (\<forall>j < i. f (xs ! j) = None))"
proof (induction xs)
  case Nil
  show ?case by simp
next
  case (Cons x xs)
  show ?case
  proof (cases "f x")
    case None
    have "(\<exists>i < length (x # xs). f ((x # xs) ! i) = Some y \<and> (\<forall>j < i. f ((x # xs) ! j) = None))
        \<longleftrightarrow> (\<exists>i < length xs. f (xs ! i) = Some y \<and> (\<forall>j < i. f (xs ! j) = None))"
      (is "?L \<longleftrightarrow> ?R")
    proof
      assume ?L
      then obtain i where i: "i < length (x # xs)" "f ((x # xs) ! i) = Some y"
        "\<forall>j < i. f ((x # xs) ! j) = None" by blast
      from i(2) None obtain i' where i': "i = Suc i'" by (cases i) auto
      have "\<forall>j < i'. f (xs ! j) = None"
      proof (intro allI impI)
        fix j assume "j < i'"
        then have "Suc j < i" using i' by simp
        with i(3) have "f ((x # xs) ! Suc j) = None" by blast
        then show "f (xs ! j) = None" by simp
      qed
      with i i' show ?R by auto
    next
      assume ?R
      then obtain i where i: "i < length xs" "f (xs ! i) = Some y" "\<forall>j < i. f (xs ! j) = None"
        by blast
      have "\<forall>j < Suc i. f ((x # xs) ! j) = None"
      proof (intro allI impI)
        fix j assume "j < Suc i"
        then show "f ((x # xs) ! j) = None" using None i(3) by (cases j) auto
      qed
      with i show ?L by (intro exI [of _ "Suc i"]) simp
    qed
    with None Cons.IH show ?thesis by simp
  next
    case (Some z)
    have "(\<exists>i < length (x # xs). f ((x # xs) ! i) = Some y \<and> (\<forall>j < i. f ((x # xs) ! j) = None))
        \<longleftrightarrow> z = y" (is "?L \<longleftrightarrow> _")
    proof
      assume ?L
      then obtain i where i: "f ((x # xs) ! i) = Some y" "\<forall>j < i. f ((x # xs) ! j) = None"
        by blast
      have "i = 0"
      proof (rule ccontr)
        assume "i \<noteq> 0"
        with i(2) have "f ((x # xs) ! 0) = None" by blast
        with Some show False by simp
      qed
      with i(1) Some show "z = y" by simp
    next
      assume "z = y"
      with Some show ?L by (intro exI [of _ 0]) simp
    qed
    with Some show ?thesis by simp
  qed
qed

lemma first_some_upt_least:
  "first_some f [0 ..< n] = Some y \<longleftrightarrow> (\<exists>i < n. f i = Some y \<and> (\<forall>j < i. f j = None))"
proof -
  have "(\<exists>i < length [0 ..< n]. f ([0 ..< n] ! i) = Some y \<and> (\<forall>j < i. f ([0 ..< n] ! j) = None))
      \<longleftrightarrow> (\<exists>i < n. f i = Some y \<and> (\<forall>j < i. f j = None))"
    by auto
  then show ?thesis by (simp only: first_some_nth)
qed

subsection \<open>Literal text and greedy repetitions\<close>

lemma match_lit:
  "match_here (lit l @ r) s g =
     (if take (length l) s = l then match_here r (drop (length l) s) g else None)"
proof (induction l arbitrary: s)
  case Nil
  show ?case by (simp add: lit_def)
next
  case (Cons c l)
  have step: "\<And>t. match_here (lit l @ r) t g =
     (if take (length l) t = l then match_here r (drop (length l) t) g else None)"
    using Cons.IH .
  show ?case
  proof (cases s)
    case Nil
    then show ?thesis by (simp add: lit_def)
  next
    case (Cons d t)
    have "match_here (lit (c # l) @ r) (d # t) g =
            (if d = c then match_here (lit l @ r) t g else None)"
      by (simp add: lit_def)
    with step [of t] Cons show ?thesis by auto
  qed
qed

lemma match_litD:
  "match_here (lit l @ r) s g = Some y \<Longrightarrow>
     take (length l) s = l \<and> match_here r (drop (length l) s) g = Some y"
  by (simp add: match_lit split: if_splits)

lemma match_litI:
  "match_here r t g = Some y \<Longrightarrow> match_here (lit l @ r) (l @ t) g = Some y"
  by (simp add: match_lit)

lemma take_le_run:
  "k \<le> length (takeWhile P s) \<Longrightarrow> x \<in> set (take k s) \<Longrightarrow> P x"
proof -
  assume k: "k \<le> length (takeWhile P s)" and x: "x \<in> set (take k s)"
  have "take k (takeWhile P s @ dropWhile P s) = take k (takeWhile P s)"
    using k by (simp del: takeWhile_dropWhile_id)
  then have "take k s = take k (takeWhile P s)" by (simp only: takeWhile_dropWhile_id)
  then have "x \<in> set (takeWhile P s)" using x by (metis in_set_takeD)
  then show "P x" by (rule set_takeWhileD [THEN conjunct2])
qed

lemma star_sound:
  assumes "match_here (Star a # r) s g = Some y"
  shows "\<exists>k. (\<forall>x \<in> set (take k s). accepts a x) \<and> k \<le> length s \<and> match_here r (drop k s) g = Some y"
proof -
  from assms have "first_some (\<lambda>k. match_here r (drop k s) g) (rev [0 ..< Suc (run_len a s)]) = Some y"
    by (simp only: match_here.simps)
  then obtain k where k: "k \<in> set (rev [0 ..< Suc (run_len a s)])"
    "match_here r (drop k s) g = Some y"
    by (blast dest: first_some_SomeD)
  from k(1) have le: "k \<le> length (takeWhile (accepts a) s)" by (auto simp: run_len_def)
  then have "\<forall>x \<in> set (take k s). accepts a x" using take_le_run [of k "accepts a" s] by blast
  moreover have "k \<le> length s" using le length_takeWhile_le [of "accepts a" s] by (rule le_trans)
  ultimately show ?thesis using k(2) by blast
qed

lemma group_sound:
  assumes "match_here (Group_Plus a # r) s g = Some y"
  shows "\<exists>k. 0 < k \<and> k \<le> length s \<and> (\<forall>x \<in> set (take k s). accepts a x)
            \<and> match_here r (drop k s) (Some (take k s)) = Some y"
proof -
  from assms have "first_some (\<lambda>k. match_here r (drop k s) (Some (take k s)))
      (rev [1 ..< Suc (run_len a s)]) = Some y"
    by (simp only: match_here.simps)
  then obtain k where k: "k \<in> set (rev [1 ..< Suc (run_len a s)])"
    "match_here r (drop k s) (Some (take k s)) = Some y"
    by (blast dest: first_some_SomeD)
  from k(1) have le: "k \<le> length (takeWhile (accepts a) s)" and pos: "0 < k"
    by (auto simp: run_len_def)
  then have "\<forall>x \<in> set (take k s). accepts a x" using take_le_run [of k "accepts a" s] by blast
  moreover have "k \<le> length s" using le length_takeWhile_le [of "accepts a" s] by (rule le_trans)
  ultimately show ?thesis using k(2) pos by blast
qed

lemma run_len_exact:
  assumes "\<forall>x \<in> set xs. accepts a x" and "ys = [] \<or> \<not> accepts a (hd ys)"
  shows "run_len a (xs @ ys) = length xs"
proof -
  have "takeWhile (accepts a) ys = []" using assms(2) by (cases ys) auto
  with assms(1) show ?thesis by (simp add: run_len_def takeWhile_append2)
qed

lemma star_complete:
  assumes "\<forall>x \<in> set xs. accepts a x" and "ys = [] \<or> \<not> accepts a (hd ys)"
    and "match_here r ys g = Some y"
  shows "match_here (Star a # r) (xs @ ys) g = Some y"
proof -
  have "rev [0 ..< Suc (run_len a (xs @ ys))] = length xs # rev [0 ..< length xs]"
    using run_len_exact [OF assms(1,2)] by simp
  with assms(3) show ?thesis by simp
qed

lemma group_complete:
  assumes "\<forall>x \<in> set xs. accepts a x" and "ys = [] \<or> \<not> accepts a (hd ys)" and "xs \<noteq> []"
    and "match_here r ys (Some xs) = Some y"
  shows "match_here (Group_Plus a # r) (xs @ ys) g = Some y"
proof -
  from assms(3) have "[1 ..< Suc (length xs)] = [1 ..< length xs] @ [length xs]"
    by (cases xs) auto
  then have "rev [1 ..< Suc (run_len a (xs @ ys))] = length xs # rev [1 ..< length xs]"
    using run_len_exact [OF assms(1,2)] by simp
  with assms(4) show ?thesis by simp
qed

lemma blank_not_digit: "\<not> is_digit CHR '' ''"
  by (simp add: is_digit_def)

lemma summary_pattern_shape:
  "summary_pattern =
     lit ''Run summary:'' @ (Star (Chr CHR '' '') # Group_Plus Digit # (lit '' events'' @ []))"
  by (simp add: summary_pattern_def)

lemma shape_sound:
  assumes "match_here (lit A @ (Star (Chr c) # Group_Plus Digit # (lit B @ []))) s None = Some g"
  shows "\<exists>ds k post. g = Some ds \<and> ds \<noteq> [] \<and> list_all is_digit ds \<and>
           s = A @ replicate k c @ ds @ B @ post"
proof -
  let ?rest = "Star (Chr c) # Group_Plus Digit # (lit B @ [])"
  have pre: "take (length A) s = A"
    using match_litD [OF assms] by (rule conjunct1)
  have m1: "match_here ?rest (drop (length A) s) None = Some g"
    using match_litD [OF assms] by (rule conjunct2)
  define s1 where "s1 = drop (length A) s"
  have s: "s = A @ s1"
    using pre unfolding s1_def by (metis append_take_drop_id)
  from star_sound [OF m1 [folded s1_def]] obtain k where
    k: "\<forall>x \<in> set (take k s1). accepts (Chr c) x" "k \<le> length s1"
    and m2: "match_here (Group_Plus Digit # (lit B @ [])) (drop k s1) None = Some g"
    by blast
  have blanks: "take k s1 = replicate k c"
  proof -
    have "\<forall>x \<in> set (take k s1). x = c" using k(1) by simp
    then have "replicate (length (take k s1)) c = take k s1"
      by (rule replicate_length_same)
    moreover have "length (take k s1) = k" using k(2) by simp
    ultimately show ?thesis by metis
  qed
  define s2 where "s2 = drop k s1"
  from group_sound [OF m2 [folded s2_def]] obtain j where
    j: "0 < j" "j \<le> length s2" "\<forall>x \<in> set (take j s2). accepts Digit x"
    and m3: "match_here (lit B @ []) (drop j s2) (Some (take j s2)) = Some g"
    by blast
  define ds where "ds = take j s2"
  have ds: "ds \<noteq> []" "list_all is_digit ds"
    using j by (auto simp: ds_def list_all_iff)
  have suf: "take (length B) (drop j s2) = B"
    using match_litD [OF m3] by (rule conjunct1)
  have "match_here [] (drop (length B) (drop j s2)) (Some (take j s2)) = Some g"
    using match_litD [OF m3] by (rule conjunct2)
  then have g: "g = Some ds"
    unfolding ds_def by simp
  have "s1 = take k s1 @ s2" by (simp add: s2_def)
  moreover have "s2 = ds @ drop j s2" by (simp add: ds_def)
  moreover have "drop j s2 = B @ drop (length B) (drop j s2)"
    using suf by (metis append_take_drop_id)
  ultimately have "s = A @ replicate k c @ ds @ B @ drop (length B) (drop j s2)"
    using s blanks by metis
  with g ds show ?thesis by blast
qed

lemma shape_complete:
  assumes "ds \<noteq> []" and "list_all is_digit ds"
    and "\<not> is_digit c" and "B \<noteq> []" and "\<not> is_digit (hd B)"
  shows "match_here (lit A @ (Star (Chr c) # Group_Plus Digit # (lit B @ [])))
           (A @ replicate k c @ ds @ B @ post) None = Some (Some ds)"
proof -
  have m3: "match_here (lit B @ []) (B @ post) (Some ds) = Some (Some ds)"
    by (rule match_litI) simp
  have m2: "match_here (Group_Plus Digit # (lit B @ [])) (ds @ B @ post) None = Some (Some ds)"
  proof (rule group_complete [OF _ _ assms(1) m3])
    show "\<forall>x \<in> set ds. accepts Digit x" using assms(2) by (simp add: list_all_iff)
    show "B @ post = [] \<or> \<not> accepts Digit (hd (B @ post))" using assms(4,5) by simp
  qed
  have m1: "match_here (Star (Chr c) # Group_Plus Digit # (lit B @ []))
              (replicate k c @ ds @ B @ post) None = Some (Some ds)"
  proof (rule star_complete [OF _ _ m2])
    show "\<forall>x \<in> set (replicate k c). accepts (Chr c) x" by simp
    have "is_digit (hd ds)" using assms(1,2) by (cases ds) simp_all
    with assms(3) have "hd ds \<noteq> c" by blast
    with assms(1) show "ds @ B @ post = [] \<or> \<not> accepts (Chr c) (hd (ds @ B @ post))"
      by simp
  qed
  then show ?thesis by (rule match_litI)
qed

subsection \<open>The summary pattern matches exactly the summary lines\<close>

lemma match_summary_sound:
  assumes "match_here summary_pattern s None = Some g"
  shows "\<exists>ds k post. g = Some ds \<and> ds \<noteq> [] \<and> list_all is_digit ds \<and>
           s = ''Run summary:'' @ replicate k CHR '' '' @ ds @ '' events'' @ post"
  using assms unfolding summary_pattern_shape by (rule shape_sound)

lemma match_summary_complete:
  assumes "ds \<noteq> []" and "list_all is_digit ds"
  shows "match_here summary_pattern
           (''Run summary:'' @ replicate k CHR '' '' @ ds @ '' events'' @ post) None = Some (Some ds)"
  unfolding summary_pattern_shape
proof (rule shape_complete [OF assms blank_not_digit])
  show "'' events'' \<noteq> []" by simp
  show "\<not> is_digit (hd '' events'')" by (simp add: blank_not_digit)
qed

lemma summary_atI:
  "i \<le> length out \<Longrightarrow> ds \<noteq> [] \<Longrightarrow> list_all is_digit ds \<Longrightarrow>
   drop i out = ''Run summary:'' @ replicate k CHR '' '' @ ds @ '' events'' @ post \<Longrightarrow>
   summary_at out i ds"
  unfolding summary_at_def by (intro conjI exI)

lemma summary_atE:
  assumes "summary_at out i ds"
  obtains k post where "i \<le> length out" and "ds \<noteq> []" and "list_all is_digit ds"
    and "drop i out = ''Run summary:'' @ replicate k CHR '' '' @ ds @ '' events'' @ post"
  using assms unfolding summary_at_def by (elim conjE exE)

lemma match_at_iff:
  assumes "i \<le> length out"
  shows "match_here summary_pattern (drop i out) None = Some g
           \<longleftrightarrow> (\<exists>ds. g = Some ds \<and> summary_at out i ds)"
proof
  assume "match_here summary_pattern (drop i out) None = Some g"
  from match_summary_sound [OF this] obtain ds k post where
    "g = Some ds" "ds \<noteq> []" "list_all is_digit ds"
    "drop i out = ''Run summary:'' @ replicate k CHR '' '' @ ds @ '' events'' @ post"
    by (elim exE conjE)
  with assms summary_atI show "\<exists>ds. g = Some ds \<and> summary_at out i ds"
    by (intro exI conjI)
next
  assume "\<exists>ds. g = Some ds \<and> summary_at out i ds"
  then obtain ds where g: "g = Some ds" and at: "summary_at out i ds"
    by (elim exE conjE)
  from at obtain k post where ds: "ds \<noteq> []" "list_all is_digit ds"
    and eq: "drop i out = ''Run summary:'' @ replicate k CHR '' '' @ ds @ '' events'' @ post"
    by (rule summary_atE)
  show "match_here summary_pattern (drop i out) None = Some g"
    unfolding eq g by (rule match_summary_complete [OF ds])
qed

lemma match_at_None_iff:
  assumes "i \<le> length out"
  shows "match_here summary_pattern (drop i out) None = None \<longleftrightarrow> (\<forall>ds. \<not> summary_at out i ds)"
proof -
  define m where "m = match_here summary_pattern (drop i out) None"
  have iff: "m = Some g \<longleftrightarrow> (\<exists>ds. g = Some ds \<and> summary_at out i ds)" for g
    unfolding m_def by (rule match_at_iff [OF assms])
  show ?thesis
  proof (fold m_def, cases m)
    case None
    have "\<not> summary_at out i ds" for ds
    proof
      assume "summary_at out i ds"
      then have "m = Some (Some ds)" by (simp add: iff)
      with None show False by simp
    qed
    with None show "m = None \<longleftrightarrow> (\<forall>ds. \<not> summary_at out i ds)" by simp
  next
    case (Some g)
    then obtain ds where "summary_at out i ds" using iff [of g] by blast
    with Some show "m = None \<longleftrightarrow> (\<forall>ds. \<not> summary_at out i ds)" by auto
  qed
qed

lemma summary_at_le: "summary_at out i ds \<Longrightarrow> i \<le> length out"
  by (erule summary_atE)

lemma search_summary_None:
  "re_search summary_pattern out = None \<longleftrightarrow> (\<forall>i ds. \<not> summary_at out i ds)"
proof -
  define f where "f = (\<lambda>i. match_here summary_pattern (drop i out) None)"
  have none: "f i = None \<longleftrightarrow> (\<forall>ds. \<not> summary_at out i ds)" if "i \<le> length out" for i
    unfolding f_def using that by (rule match_at_None_iff)
  have "re_search summary_pattern out = None \<longleftrightarrow> (\<forall>i \<le> length out. f i = None)"
    by (auto simp: re_search_def f_def first_some_None_iff less_Suc_eq_le)
  also have "\<dots> \<longleftrightarrow> (\<forall>i \<le> length out. \<forall>ds. \<not> summary_at out i ds)"
    using none by simp
  also have "\<dots> \<longleftrightarrow> (\<forall>i ds. \<not> summary_at out i ds)"
    using summary_at_le by blast
  finally show ?thesis .
qed

lemma search_summary_Some:
  "re_search summary_pattern out = Some g \<longleftrightarrow>
     (\<exists>i ds. g = Some ds \<and> summary_at out i ds \<and> (\<forall>j < i. \<forall>ds'. \<not> summary_at out j ds'))"
proof -
  define f where "f = (\<lambda>i. match_here summary_pattern (drop i out) None)"
  define P where "P = (\<lambda>i. \<exists>ds. g = Some ds \<and> summary_at out i ds)"
  define N where "N = (\<lambda>j. \<forall>ds'. \<not> summary_at out j ds')"
  have some: "f i = Some g \<longleftrightarrow> P i" if "i \<le> length out" for i
    unfolding f_def P_def using that by (rule match_at_iff)
  have none: "f i = None \<longleftrightarrow> N i" if "i \<le> length out" for i
    unfolding f_def N_def using that by (rule match_at_None_iff)
  have Ple: "i \<le> length out" if "P i" for i
    using that summary_at_le unfolding P_def by blast
  have "re_search summary_pattern out = Some g
          \<longleftrightarrow> (\<exists>i < Suc (length out). f i = Some g \<and> (\<forall>j < i. f j = None))"
    unfolding re_search_def f_def by (rule first_some_upt_least)
  also have "\<dots> \<longleftrightarrow> (\<exists>i. P i \<and> (\<forall>j < i. N j))"
  proof
    assume "\<exists>i < Suc (length out). f i = Some g \<and> (\<forall>j < i. f j = None)"
    then obtain i where i: "i \<le> length out" "f i = Some g" "\<forall>j < i. f j = None"
      by (auto simp: less_Suc_eq_le)
    have "P i" using some [OF i(1)] i(2) by simp
    moreover have "N j" if "j < i" for j
    proof -
      from that i(1) have "j \<le> length out" by simp
      from none [OF this] i(3) that show ?thesis by simp
    qed
    ultimately show "\<exists>i. P i \<and> (\<forall>j < i. N j)" by blast
  next
    assume "\<exists>i. P i \<and> (\<forall>j < i. N j)"
    then obtain i where i: "P i" "\<forall>j < i. N j" by blast
    from Ple [OF i(1)] have le: "i \<le> length out" .
    have "f i = Some g" using some [OF le] i(1) by simp
    moreover have "f j = None" if "j < i" for j
    proof -
      from that le have "j \<le> length out" by simp
      from none [OF this] i(2) that show ?thesis by simp
    qed
    ultimately show "\<exists>i < Suc (length out). f i = Some g \<and> (\<forall>j < i. f j = None)"
      using le by (intro exI [of _ i]) simp
  qed
  also have "\<dots> \<longleftrightarrow> (\<exists>i ds. g = Some ds \<and> summary_at out i ds \<and> (\<forall>j < i. \<forall>ds'. \<not> summary_at out j ds'))"
    unfolding P_def N_def by blast
  finally show ?thesis .
qed

text \<open>Either the output has no summary, or it has a leftmost one, with one digit string.\<close>

lemma summary_leftmost:
  assumes "summary_at out i0 ds0"
  shows "\<exists>i ds. summary_at out i ds \<and> (\<forall>j < i. \<forall>ds'. \<not> summary_at out j ds')"
proof (cases "re_search summary_pattern out")
  case None
  then have "\<not> summary_at out i0 ds0"
    using search_summary_None [of out] by blast
  with assms show ?thesis by simp
next
  case (Some g)
  then show ?thesis
    using search_summary_Some [of out g] by blast
qed

lemma summary_at_unique:
  assumes "summary_at out i ds" and "summary_at out i ds'"
  shows "ds = ds'"
proof -
  from assms(1) have le: "i \<le> length out" by (rule summary_at_le)
  from assms have "match_here summary_pattern (drop i out) None = Some (Some ds)"
    "match_here summary_pattern (drop i out) None = Some (Some ds')"
    using match_at_iff [OF le] by blast+
  then show ?thesis by simp
qed

section \<open>\<^verbatim>\<open>run_tile\<close>: event count and child environment\<close>

lemma py_int_digits:
  "ds \<noteq> [] \<Longrightarrow> list_all is_digit ds \<Longrightarrow>
   py_int lim ds = (if 0 < lim \<and> lim < length ds then Inl ValueError else Inr (int (decimal ds)))"
  by (simp add: py_int_def)

lemma decimal_snoc: "decimal (ds @ [c]) = 10 * decimal ds + digit_val c"
  by (simp add: decimal_def)

lemma run_tile_launch:
  "fst (run_tile lim environ check_output start stop use_gpu) =
     \<lparr>argv = [''./tile_gpu''],
      environment = environ(''CELER_DISABLE_DEVICE'' \<mapsto> (if use_gpu then ''0'' else ''1''))\<rparr>"
  by (simp add: run_tile_def Let_def)

lemma run_tile_result:
  assumes "check_output (fst (run_tile lim environ check_output start stop use_gpu)) = Inr out"
  shows "snd (run_tile lim environ check_output start stop use_gpu) =
     (case re_search summary_pattern out of
        None \<Rightarrow> Inr (stop - start, 1000)
      | Some g \<Rightarrow>
          (case g of
             None \<Rightarrow> Inl TypeError
           | Some ds \<Rightarrow>
               (case py_int lim ds of Inl e \<Rightarrow> Inl e | Inr nev \<Rightarrow> Inr (stop - start, nev))))"
  using assms unfolding run_tile_launch by (simp add: run_tile_def Let_def)

text \<open>
  Claim C9. Whenever \<^verbatim>\<open>./tile_gpu\<close> has run and its standard output has been captured:
  if no part of the output reads \<^verbatim>\<open>Run summary:\<close>, blanks, digits, \<^verbatim>\<open> events\<close>, then
  \<^verbatim>\<open>run_tile\<close> returns the event count 1000; otherwise the event count is the decimal
  value of the digits of the leftmost such part (and the conversion raises ValueError
  instead of returning when the digits are more than a set interpreter limit allows);
  and the child's environment has \<^verbatim>\<open>CELER_DISABLE_DEVICE\<close> equal to \<^verbatim>\<open>"1"\<close> exactly when
  \<^verbatim>\<open>use_gpu\<close> is false.
\<close>

theorem run_tile_event_count:
  fixes start stop :: "'t::minus"
  assumes "check_output (fst (run_tile lim environ check_output start stop use_gpu)) = Inr out"
  shows "((\<forall>i ds. \<not> summary_at out i ds) \<longrightarrow>
            snd (run_tile lim environ check_output start stop use_gpu) = Inr (stop - start, 1000))
       \<and> (\<forall>i ds. summary_at out i ds \<and> (\<forall>j < i. \<forall>ds'. \<not> summary_at out j ds') \<longrightarrow>
            snd (run_tile lim environ check_output start stop use_gpu) =
              (if 0 < lim \<and> lim < length ds then Inl ValueError
               else Inr (stop - start, int (decimal ds))))
       \<and> (environment (fst (run_tile lim environ check_output start stop use_gpu))
             ''CELER_DISABLE_DEVICE'' = Some ''1'' \<longleftrightarrow> \<not> use_gpu)"
proof (intro conjI impI allI)
  assume "\<forall>i ds. \<not> summary_at out i ds"
  then have "re_search summary_pattern out = None"
    by (rule search_summary_None [THEN iffD2])
  with run_tile_result [where check_output = check_output, OF assms]
  show "snd (run_tile lim environ check_output start stop use_gpu) = Inr (stop - start, 1000)"
    by simp
next
  fix i ds
  assume at: "summary_at out i ds \<and> (\<forall>j < i. \<forall>ds'. \<not> summary_at out j ds')"
  then have "re_search summary_pattern out = Some (Some ds)"
    unfolding search_summary_Some by blast
  moreover from at have "ds \<noteq> []" "list_all is_digit ds"
    by (auto elim: summary_atE)
  ultimately show "snd (run_tile lim environ check_output start stop use_gpu) =
      (if 0 < lim \<and> lim < length ds then Inl ValueError
       else Inr (stop - start, int (decimal ds)))"
    using run_tile_result [where check_output = check_output, OF assms]
    by (simp add: py_int_digits)
next
  show "environment (fst (run_tile lim environ check_output start stop use_gpu))
          ''CELER_DISABLE_DEVICE'' = Some ''1'' \<longleftrightarrow> \<not> use_gpu"
    unfolding run_tile_launch by simp
qed

theorem run_tile_event_count_witness:
  "summary_at ''ok Run summary:  250 events in 3 s'' 3 ''250''
   \<and> snd (run_tile 4300 Map.empty (\<lambda>c. Inr ''ok Run summary:  250 events in 3 s'') (0::int) 7 False)
     = Inr (7, 250)
   \<and> (\<forall>i ds. \<not> summary_at ''Segmentation fault'' i ds)
   \<and> snd (run_tile 4300 Map.empty (\<lambda>c. Inr ''Segmentation fault'') (0::int) 7 True)
     = Inr (7, 1000)
   \<and> environment (fst (run_tile 4300 Map.empty (\<lambda>c. Inr ''Segmentation fault'') (0::int) 7 False))
       ''CELER_DISABLE_DEVICE'' = Some ''1''"
proof -
  let ?good = "''ok Run summary:  250 events in 3 s''" and ?bad = "''Segmentation fault''"
  have at: "summary_at ?good 3 ''250''"
    by (rule summary_atI [where k = "Suc (Suc 0)" and post = "'' in 3 s''"])
       (simp_all add: is_digit_def)
  have left: "\<forall>j < 3. \<forall>ds'. \<not> summary_at ?good j ds'"
  proof (intro allI impI)
    fix j :: nat and ds'
    assume "j < 3"
    then have j: "j = 0 \<or> j = 1 \<or> j = 2" by arith
    have "match_here summary_pattern (drop 0 ?good) None = None"
      "match_here summary_pattern (drop 1 ?good) None = None"
      "match_here summary_pattern (drop 2 ?good) None = None"
      by code_simp+
    with j have "match_here summary_pattern (drop j ?good) None = None" by blast
    moreover from \<open>j < 3\<close> have "j \<le> length ?good" by simp
    ultimately show "\<not> summary_at ?good j ds'"
      using match_at_None_iff [of j ?good] by blast
  qed
  have "re_search summary_pattern ?bad = None"
    by code_simp
  then have none: "\<forall>i ds. \<not> summary_at ?bad i ds"
    by (rule search_summary_None [THEN iffD1])
  have dec: "decimal ''250'' = 250"
    by code_simp
  have "snd (run_tile 4300 Map.empty (\<lambda>c. Inr ?good) (0::int) 7 False) =
          (if (0::nat) < 4300 \<and> 4300 < length ''250'' then Inl ValueError
           else Inr (7 - 0, int (decimal ''250'')))"
    using at left
      run_tile_event_count [where check_output = "\<lambda>c. Inr ?good" and out = ?good
        and lim = 4300 and environ = Map.empty and start = "0::int" and stop = 7
        and use_gpu = False]
    by blast
  then have one: "snd (run_tile 4300 Map.empty (\<lambda>c. Inr ?good) (0::int) 7 False) = Inr (7, 250)"
    by (simp add: dec)
  have two: "snd (run_tile 4300 Map.empty (\<lambda>c. Inr ?bad) (0::int) 7 True) = Inr (7 - 0, 1000)"
    using none
      run_tile_event_count [where check_output = "\<lambda>c. Inr ?bad" and out = ?bad
        and lim = 4300 and environ = Map.empty and start = "0::int" and stop = 7
        and use_gpu = True]
    by blast
  have three: "environment (fst (run_tile 4300 Map.empty (\<lambda>c. Inr ?bad) (0::int) 7 False))
       ''CELER_DISABLE_DEVICE'' = Some ''1''"
    using
      run_tile_event_count [where check_output = "\<lambda>c. Inr ?bad" and out = ?bad
        and lim = 4300 and environ = Map.empty and start = "0::int" and stop = 7
        and use_gpu = False]
    by blast
  from at one none two three show ?thesis by simp
qed

section \<open>The download loop fetches only what is absent\<close>

lemma urlretrieve_retrieved:
  "urlretrieve net url f w = (r, w') \<Longrightarrow> retrieved w' = retrieved w @ [(url, f)]"
  by (auto simp: urlretrieve_def Let_def split: response.splits option.splits)

lemma urlretrieve_other:
  "urlretrieve net url f w = (r, w') \<Longrightarrow> g \<noteq> f \<Longrightarrow> cwd w' g = cwd w g"
  by (auto simp: urlretrieve_def Let_def split: response.splits option.splits)

lemma urlretrieve_keeps:
  "urlretrieve net url f w = (r, w') \<Longrightarrow> exists w g \<Longrightarrow> exists w' g"
  by (auto simp: urlretrieve_def Let_def exists_def split: response.splits option.splits)

lemma urlretrieve_creates:
  "urlretrieve net url f w = (Inr u, w') \<Longrightarrow> exists w' f"
  by (auto simp: urlretrieve_def Let_def exists_def split: response.splits option.splits)

lemma download_loop_keeps:
  "download_loop net table w = (r, w') \<Longrightarrow> exists w g \<Longrightarrow> exists w' g"
proof (induction table arbitrary: w)
  case Nil
  then show ?case by simp
next
  case (Cons e table)
  obtain f url where e: "e = (f, url)" by (cases e)
  show ?case
  proof (cases "exists w f")
    case True
    with Cons.prems e have "download_loop net table (w\<lparr>stdout := stdout w @ [Already_present f]\<rparr>) = (r, w')"
      by simp
    moreover have "exists (w\<lparr>stdout := stdout w @ [Already_present f]\<rparr>) g"
      using Cons.prems(2) by (simp add: exists_def)
    ultimately show ?thesis by (rule Cons.IH)
  next
    case False
    obtain r1 w1 where u: "urlretrieve net url f (w\<lparr>stdout := stdout w @ [Downloading f]\<rparr>) = (r1, w1)"
      by (cases "urlretrieve net url f (w\<lparr>stdout := stdout w @ [Downloading f]\<rparr>)")
    have g1: "exists w1 g"
      using urlretrieve_keeps [OF u] Cons.prems(2) by (simp add: exists_def)
    show ?thesis
    proof (cases r1)
      case (Inl x)
      with Cons.prems(1) e False u have "w' = w1" by simp
      with g1 show ?thesis by simp
    next
      case (Inr y)
      with Cons.prems(1) e False u have "download_loop net table w1 = (r, w')" by simp
      then show ?thesis using g1 by (rule Cons.IH)
    qed
  qed
qed

lemma download_loop_all_exist:
  "download_loop net table w = (Inr u, w') \<Longrightarrow> (f, url) \<in> set table \<Longrightarrow> exists w' f"
proof (induction table arbitrary: w)
  case Nil
  then show ?case by simp
next
  case (Cons e table)
  obtain f0 url0 where e: "e = (f0, url0)" by (cases e)
  let ?wp = "w\<lparr>stdout := stdout w @ [Already_present f0]\<rparr>"
  let ?wd = "w\<lparr>stdout := stdout w @ [Downloading f0]\<rparr>"
  show ?case
  proof (cases "exists w f0")
    case True
    with Cons.prems e have run: "download_loop net table ?wp = (Inr u, w')" by simp
    show ?thesis
    proof (cases "(f, url) = e")
      case True
      have "exists ?wp f0" using \<open>exists w f0\<close> by (simp add: exists_def)
      with download_loop_keeps [OF run] True e show ?thesis by simp
    next
      case False
      with Cons.prems(2) have "(f, url) \<in> set table" by simp
      with Cons.IH [OF run] show ?thesis by simp
    qed
  next
    case False
    obtain r1 w1 where ur: "urlretrieve net url0 f0 ?wd = (r1, w1)"
      by (cases "urlretrieve net url0 f0 ?wd")
    with Cons.prems(1) e False obtain y where r1: "r1 = Inr y" and run: "download_loop net table w1 = (Inr u, w')"
      by (cases r1) auto
    show ?thesis
    proof (cases "(f, url) = e")
      case True
      have "exists w1 f0" using ur r1 urlretrieve_creates by blast
      with download_loop_keeps [OF run] True e show ?thesis by simp
    next
      case False
      with Cons.prems(2) have "(f, url) \<in> set table" by simp
      with Cons.IH [OF run] show ?thesis by simp
    qed
  qed
qed

lemma download_loop_present:
  "\<forall>e \<in> set table. exists w (fst e) \<Longrightarrow>
   download_loop net table w = (Inr (), w\<lparr>stdout := stdout w @ map (\<lambda>e. Already_present (fst e)) table\<rparr>)"
proof (induction table arbitrary: w)
  case Nil
  then show ?case by simp
next
  case (Cons e table)
  obtain f0 url0 where e: "e = (f0, url0)" by (cases e)
  let ?wp = "w\<lparr>stdout := stdout w @ [Already_present f0]\<rparr>"
  have "\<forall>e \<in> set table. exists ?wp (fst e)" using Cons.prems by (simp add: exists_def)
  from Cons.IH [OF this] Cons.prems e show ?case by simp
qed

lemma missing_cong:
  "\<forall>e \<in> set table. exists w (fst e) = exists w' (fst e) \<Longrightarrow> missing w table = missing w' table"
  unfolding missing_def
  by (induction table) auto

lemma download_loop_calls:
  "distinct (map fst table) \<Longrightarrow> download_loop net table w = (r, w') \<Longrightarrow>
   (\<exists>cs. retrieved w' = retrieved w @ cs \<and> (\<exists>rest. missing w table = cs @ rest \<and> (r = Inr () \<longrightarrow> rest = [])))"
proof (induction table arbitrary: w)
  case Nil
  then show ?case by (simp add: missing_def)
next
  case (Cons e table)
  obtain f0 url0 where e: "e = (f0, url0)" by (cases e)
  let ?wp = "w\<lparr>stdout := stdout w @ [Already_present f0]\<rparr>"
  let ?wd = "w\<lparr>stdout := stdout w @ [Downloading f0]\<rparr>"
  from Cons.prems(1) e have d: "distinct (map fst table)" and nf: "f0 \<notin> fst ` set table" by auto
  show ?case
  proof (cases "exists w f0")
    case True
    with Cons.prems e have run: "download_loop net table ?wp = (r, w')" by simp
    have m: "missing w (e # table) = missing ?wp table"
      using True e by (simp add: missing_def exists_def)
    from Cons.IH [OF d run] m show ?thesis by simp
  next
    case False
    obtain r1 w1 where ur: "urlretrieve net url0 f0 ?wd = (r1, w1)"
      by (cases "urlretrieve net url0 f0 ?wd")
    have rt: "retrieved w1 = retrieved w @ [(url0, f0)]"
      using urlretrieve_retrieved [OF ur] by simp
    have "\<forall>e \<in> set table. exists w (fst e) = exists w1 (fst e)"
    proof
      fix x assume "x \<in> set table"
      with nf have "fst x \<noteq> f0" by force
      from urlretrieve_other [OF ur this] show "exists w (fst x) = exists w1 (fst x)"
        by (simp add: exists_def)
    qed
    then have mc: "missing w table = missing w1 table" by (rule missing_cong)
    have m: "missing w (e # table) = (url0, f0) # missing w1 table"
      using False e mc by (simp add: missing_def)
    show ?thesis
    proof (cases r1)
      case (Inl x)
      with Cons.prems(2) e False ur have "w' = w1" "r = Inl x" by simp_all
      with rt m show ?thesis by simp
    next
      case (Inr y)
      with Cons.prems(2) e False ur have run: "download_loop net table w1 = (r, w')" by simp
      from Cons.IH [OF d run] rt m show ?thesis by auto
    qed
  qed
qed

lemma download_cell_calls:
  assumes "distinct (map fst table)" and "download_cell net table w = (r, w')"
  shows "\<exists>cs rest. retrieved w' = retrieved w @ cs \<and> missing w table = cs @ rest
           \<and> (r = Inr () \<longrightarrow> rest = [])"
proof -
  obtain r0 w0 where run: "download_loop net table w = (r0, w0)"
    by (cases "download_loop net table w")
  from download_loop_calls [OF assms(1) run] obtain cs rest where
    cs: "retrieved w0 = retrieved w @ cs" "missing w table = cs @ rest" "r0 = Inr () \<longrightarrow> rest = []"
    by blast
  have "retrieved w' = retrieved w0 \<and> (r = Inr () \<longrightarrow> r0 = Inr ())"
    using assms(2) run by (cases r0) (auto simp: download_cell_def)
  with cs show ?thesis by auto
qed

lemma missing_set:
  "(url, fname) \<in> set (missing w table) \<longleftrightarrow> (fname, url) \<in> set table \<and> \<not> exists w fname"
  by (auto simp: missing_def)

lemma download_cell_again:
  assumes "download_cell net table w = (Inr (), w1)"
  shows "download_cell net2 table w1 =
           (Inr (), w1\<lparr>stdout := stdout w1 @ map (\<lambda>e. Already_present (fst e)) table @ [Ready]\<rparr>)"
proof -
  obtain r0 w0 where run: "download_loop net table w = (r0, w0)"
    by (cases "download_loop net table w")
  with assms have r0: "r0 = Inr ()" and w1: "w1 = w0\<lparr>stdout := stdout w0 @ [Ready]\<rparr>"
    by (cases r0; auto simp: download_cell_def)+
  have "\<forall>e \<in> set table. exists w0 (fst e)"
  proof
    fix e assume "e \<in> set table"
    then have "(fst e, snd e) \<in> set table" by simp
    from download_loop_all_exist [OF run [unfolded r0] this] show "exists w0 (fst e)" .
  qed
  then have "\<forall>e \<in> set table. exists w1 (fst e)" by (simp add: w1 exists_def)
  from download_loop_present [OF this, of net2] show ?thesis
    by (simp add: download_cell_def)
qed

text \<open>
  Claim C10. For a table with distinct file names (a dictionary), every call of
  \<^verbatim>\<open>urlretrieve\<close> that a run of the download cell makes is for an entry of the table whose
  file was absent from the working directory, and a run that completes has made
  exactly these calls, in table order. Consequently a second run after a completed
  one, whatever the network then answers, completes with no further call of
  \<^verbatim>\<open>urlretrieve\<close> and the same directory content, printing \<^verbatim>\<open>already present\<close> for every
  entry.
\<close>

theorem download_only_when_absent:
  assumes "distinct (map fst table)"
  shows "(\<forall>r w'. download_cell net table w = (r, w') \<longrightarrow>
            (\<exists>cs. retrieved w' = retrieved w @ cs
               \<and> (\<forall>(url, fname) \<in> set cs. (fname, url) \<in> set table \<and> \<not> exists w fname)
               \<and> (r = Inr () \<longrightarrow> cs = missing w table)))
       \<and> (\<forall>w1. download_cell net table w = (Inr (), w1) \<longrightarrow>
            (\<forall>net2. \<exists>w2. download_cell net2 table w1 = (Inr (), w2)
               \<and> retrieved w2 = retrieved w1 \<and> cwd w2 = cwd w1
               \<and> stdout w2 = stdout w1 @ map (\<lambda>e. Already_present (fst e)) table @ [Ready]))"
proof (intro conjI allI impI)
  fix r w'
  assume "download_cell net table w = (r, w')"
  from download_cell_calls [OF assms this] obtain cs rest where
    cs: "retrieved w' = retrieved w @ cs" "missing w table = cs @ rest" "r = Inr () \<longrightarrow> rest = []"
    by blast
  have "\<forall>(url, fname) \<in> set cs. (fname, url) \<in> set table \<and> \<not> exists w fname"
  proof (clarify)
    fix url fname assume "(url, fname) \<in> set cs"
    then have "(url, fname) \<in> set (missing w table)" using cs(2) by simp
    then show "(fname, url) \<in> set table \<and> \<not> exists w fname" by (rule missing_set [THEN iffD1])
  qed
  moreover have "r = Inr () \<longrightarrow> cs = missing w table" using cs(2,3) by simp
  ultimately show "\<exists>cs. retrieved w' = retrieved w @ cs
      \<and> (\<forall>(url, fname) \<in> set cs. (fname, url) \<in> set table \<and> \<not> exists w fname)
      \<and> (r = Inr () \<longrightarrow> cs = missing w table)"
    using cs(1) by blast
next
  fix w1 net2
  assume "download_cell net table w = (Inr (), w1)"
  from download_cell_again [OF this, of net2]
  show "\<exists>w2. download_cell net2 table w1 = (Inr (), w2)
      \<and> retrieved w2 = retrieved w1 \<and> cwd w2 = cwd w1
      \<and> stdout w2 = stdout w1 @ map (\<lambda>e. Already_present (fst e)) table @ [Ready]"
    by simp
qed

theorem download_only_when_absent_witness:
  "(let w0 = \<lparr>cwd = [''TBrun_elec.mac'' \<mapsto> ''/run/beamOn 1000''], stdout = [], retrieved = []\<rparr>;
        (r1, w1) = download_cell (\<lambda>url fname. Fetched ''<gdml/>'') files w0;
        (r2, w2) = download_cell (\<lambda>url fname. Failed URLError None) files w1
    in distinct (map fst files)
       \<and> r1 = Inr ()
       \<and> retrieved w1 = [(snd (files ! 0), ''TileTB_2B1EB_nobeamline.gdml'')]
       \<and> r2 = Inr ()
       \<and> retrieved w2 = retrieved w1
       \<and> cwd w2 = cwd w1)"
proof -
  let ?w0 = "\<lparr>cwd = [''TBrun_elec.mac'' \<mapsto> ''/run/beamOn 1000''], stdout = [],
              retrieved = []\<rparr> :: string world"
  let ?net = "\<lambda>(url :: string) (fname :: string). Fetched ''<gdml/>'' :: string response"
  let ?down = "\<lambda>(url :: string) (fname :: string). Failed URLError None :: string response"
  obtain r1 w1 where first: "download_cell ?net files ?w0 = (r1, w1)"
    by (cases "download_cell ?net files ?w0")
  obtain r2 w2 where second: "download_cell ?down files w1 = (r2, w2)"
    by (cases "download_cell ?down files w1")
  have d: "distinct (map fst files)"
    by (simp add: files_def)
  have "fst (download_cell ?net files ?w0) = Inr ()"
    by (simp add: files_def download_cell_def urlretrieve_def exists_def Let_def)
  with first have r1: "r1 = Inr ()" by simp
  have m: "missing ?w0 files = [(snd (files ! 0), ''TileTB_2B1EB_nobeamline.gdml'')]"
    by (simp add: files_def missing_def exists_def)
  note inst = download_only_when_absent [OF d, of ?net ?w0]
  from inst first r1 m have c1: "retrieved w1 = [(snd (files ! 0), ''TileTB_2B1EB_nobeamline.gdml'')]"
    by auto
  from inst first r1 obtain w2' where
    "download_cell ?down files w1 = (Inr (), w2')" "retrieved w2' = retrieved w1" "cwd w2' = cwd w1"
    by blast
  with second have "r2 = Inr ()" "retrieved w2 = retrieved w1" "cwd w2 = cwd w1"
    by simp_all
  with d r1 c1 first second show ?thesis
    by (simp add: Let_def)
qed

end
